theory Spec2Isabelle
  imports Main
begin

unbundle bit_operations_syntax

section \<open>Python primitives used by the game logic\<close>

text \<open>
  The only exception the modelled fragment can raise is \<open>ValueError\<close>: Python raises it
  for an extended slice whose step is zero, and for \<open>str\<close> of an integer that has too
  many digits.
\<close>

datatype py_error = ValueError

text \<open>
  The decimal rendering of an integer: the digits, most significant first, with a leading
  minus sign for a negative number. Python integers are unbounded, hence \<open>int\<close>.
\<close>

definition digit_char :: "nat \<Rightarrow> char" where
  "digit_char d = ''0123456789'' ! d"

fun str_nat :: "nat \<Rightarrow> string" where
  "str_nat n = (if n < 10 then [digit_char n] else str_nat (n div 10) @ [digit_char (n mod 10)])"

definition py_str :: "int \<Rightarrow> string" where
  "py_str n = (if n < 0 then CHR ''-'' # str_nat (nat (- n)) else str_nat (nat n))"

text \<open>
  The built-in \<open>str(n)\<close> as CPython runs it: an integer with more decimal digits (the
  sign not counted) than \<open>sys.int_info.default_max_str_digits\<close>, which is 4300, is not
  converted and \<open>ValueError\<close> is raised; any other integer is rendered.
\<close>

definition int_max_str_digits :: nat where
  "int_max_str_digits = 4300"

definition builtin_str :: "int \<Rightarrow> py_error + string" where
  "builtin_str n =
     (if int_max_str_digits < length (str_nat (nat \<bar>n\<bar>)) then Inl ValueError
      else Inr (py_str n))"

text \<open>
  The extended slice \<open>xs[::step]\<close> with start and stop left out. A positive step walks
  forward from index 0, a negative step walks backward from the last index, and a zero
  step raises \<open>ValueError\<close>. Either way \<open>ceil(len / |step|)\<close> elements are taken.
\<close>

definition slice_step :: "'a list \<Rightarrow> int \<Rightarrow> py_error + 'a list" where
  "slice_step xs step =
     (if step = 0 then Inl ValueError
      else if 0 < step then
        Inr (map (\<lambda>j. xs ! (j * nat step))
               [0 ..< (length xs + nat step - 1) div nat step])
      else
        Inr (map (\<lambda>j. xs ! (length xs - 1 - j * nat (- step)))
               [0 ..< (length xs + nat (- step) - 1) div nat (- step)]))"

section \<open>The card tables\<close>

text \<open>
  \<open>GuessTheNumberGame.CARDS_NUMS\<close>: six lists, each \<open>list(map(str, [...]))\<close>, so the
  entries are the decimal strings of the numbers, in the order written in the source. All
  the numbers have one or two digits, so \<open>str\<close> renders each of them
  (\<open>builtin_str_small\<close> below).
\<close>

definition CARDS_NUMS :: "string list list" where
  "CARDS_NUMS =
    [ map py_str
        [1, 3, 5, 7, 9, 11, 13, 15, 17, 19, 21, 23, 25, 27, 29, 31, 33, 35, 37, 39, 41, 43, 45,
         47, 49, 51, 53, 55, 57, 59, 61, 63],
      map py_str
        [2, 3, 6, 7, 10, 11, 14, 15, 18, 19, 22, 23, 26, 27, 30, 31, 34, 35, 38, 39, 42, 43, 46,
         47, 50, 51, 54, 55, 58, 59, 62, 63],
      map py_str
        [4, 5, 6, 7, 12, 13, 14, 15, 20, 21, 22, 23, 28, 29, 30, 31, 36, 37, 38, 39, 44, 45, 46,
         47, 52, 53, 54, 55, 60, 61, 62, 63],
      map py_str
        [8, 9, 10, 11, 12, 13, 14, 15, 24, 25, 26, 27, 28, 29, 30, 31, 40, 41, 42, 43, 44, 45, 46,
         47, 56, 57, 58, 59, 60, 61, 62, 63],
      map py_str
        [16, 17, 18, 19, 20, 21, 22, 23, 24, 25, 26, 27, 28, 29, 30, 31, 48, 49, 50, 51, 52, 53,
         54, 55, 56, 57, 58, 59, 60, 61, 62, 63],
      map py_str
        [32, 33, 34, 35, 36, 37, 38, 39, 40, 41, 42, 43, 44, 45, 46, 47, (48::int), 49, 50, 51,
         52, 53, 54, 55, 56, 57, 58, 59, 60, 61, 62, 63] ]"

section \<open>The decoder\<close>

text \<open>
  \<open>GuessTheNumberGame.get_result\<close>: the slice \<open>binary_string[::+1]\<close>, then the loop
  over \<open>enumerate(binary_string)\<close> that adds \<open>2 ** i\<close> for every character equal to
  \<open>'1'\<close>, then \<open>return str(decimal)\<close>, which raises when \<open>decimal\<close> has more than
  4300 digits.
\<close>

definition get_result :: "string \<Rightarrow> py_error + string" where
  "get_result binary_string =
     (case slice_step binary_string 1 of
        Inl e \<Rightarrow> Inl e
      | Inr binary_string' \<Rightarrow>
          builtin_str
            (fold (\<lambda>(i, bit) decimal. if bit = CHR ''1'' then decimal + 2 ^ i else decimal)
                  (enumerate 0 binary_string') 0))"

section \<open>Collecting the answers\<close>

text \<open>
  The two fields of the game object that the round uses. \<open>start_game\<close> resets them;
  \<open>process_answer\<close> appends the answer character and moves to the next card. The
  Yes button is bound to \<open>process_answer('1')\<close> and the No button to
  \<open>process_answer('0')\<close>.
\<close>

record game =
  answers :: string
  card_num :: nat

definition start_game :: game where
  "start_game = \<lparr>answers = '''', card_num = 0\<rparr>"

definition process_answer :: "string \<Rightarrow> game \<Rightarrow> game" where
  "process_answer answer g = g\<lparr>answers := answers g @ answer, card_num := card_num g + 1\<rparr>"

definition press :: "bool \<Rightarrow> game \<Rightarrow> game" where
  "press yes g = process_answer (if yes then ''1'' else ''0'') g"

text \<open>A round: the buttons pressed in order, starting from a fresh game.\<close>

definition play :: "bool list \<Rightarrow> game" where
  "play bs = fold press bs start_game"

text \<open>
  The player who thinks of \<open>n\<close> and answers truthfully: Yes on card \<open>k\<close> exactly when
  the string of \<open>n\<close> is printed on it.
\<close>

definition on_card :: "int \<Rightarrow> nat \<Rightarrow> bool" where
  "on_card n k = (py_str n \<in> set (CARDS_NUMS ! k))"

definition truthful :: "int \<Rightarrow> bool list" where
  "truthful n = map (on_card n) [0 ..< 6]"

section \<open>Auxiliary definitions for the proofs\<close>

text \<open>
  The character that one button press appends: \<open>'1'\<close> for Yes, \<open>'0'\<close> for No.
\<close>

definition answer_char :: "bool \<Rightarrow> char" where
  "answer_char yes = (if yes then CHR ''1'' else CHR ''0'')"

text \<open>
  Reading a digit string back as a number (what \<open>int(s)\<close> does on the output of
  \<open>str\<close>); it is a left inverse of \<open>str_nat\<close> and shows that different numbers are
  printed differently.
\<close>

definition nat_of_digits :: "string \<Rightarrow> nat" where
  "nat_of_digits ds = foldl (\<lambda>a c. 10 * a + (of_char c - 48)) 0 ds"

text \<open>
  The decoder as the specification describes it: answer \<open>i\<close> stands for bit \<open>i\<close>, so
  the value is the sum of \<open>2^i\<close> over the positions \<open>i\<close> that hold \<open>'1'\<close>, with no
  reversal of the answers; it is handed back through \<open>str\<close> as in the source.
\<close>

definition decode_positional :: "string \<Rightarrow> py_error + string" where
  "decode_positional s = builtin_str (\<Sum>i<length s. if s ! i = CHR ''1'' then 2 ^ i else 0)"

section \<open>Properties of the primitives\<close>

declare str_nat.simps [simp del]

lemma slice_step_one: "slice_step xs 1 = Inr xs"
  by (simp add: slice_step_def map_nth)

lemma slice_step_minus_one: "slice_step xs (- 1) = Inr (rev xs)"
  by (auto simp add: slice_step_def rev_nth intro!: nth_equalityI)

lemma decode_loop_sum:
  "fold (\<lambda>(i, bit) decimal. if bit = CHR ''1'' then decimal + 2 ^ i else decimal)
        (enumerate m s) (acc::int)
   = acc + (\<Sum>j<length s. if s ! j = CHR ''1'' then 2 ^ (m + j) else 0)"
proof (induction s arbitrary: m acc)
  case Nil
  show ?case by simp
next
  case (Cons c cs)
  show ?case
    by (simp add: Cons.IH sum.lessThan_Suc_shift del: sum.lessThan_Suc cong: if_cong)
qed

lemma get_result_sum:
  "get_result s = builtin_str (\<Sum>j<length s. if s ! j = CHR ''1'' then 2 ^ j else 0)"
  by (simp add: get_result_def slice_step_one decode_loop_sum cong: if_cong)

lemma positional_sum_bounds:
  "0 \<le> (\<Sum>i<m. if P i then 2 ^ i else (0::int))"
  "(\<Sum>i<m. if P i then 2 ^ i else (0::int)) < 2 ^ m"
proof -
  show "0 \<le> (\<Sum>i<m. if P i then 2 ^ i else (0::int))"
    by (rule sum_nonneg) simp
  have "(\<Sum>i<m. if P i then 2 ^ i else (0::int)) \<le> (\<Sum>i<m. 2 ^ i)"
    by (rule sum_mono) simp
  also have "\<dots> = 2 ^ m - 1"
    by (induction m) simp_all
  finally show "(\<Sum>i<m. if P i then 2 ^ i else (0::int)) < 2 ^ m"
    by simp
qed

lemma length_str_nat_le:
  "0 < k \<Longrightarrow> length (str_nat n) \<le> k \<longleftrightarrow> n < 10 ^ k"
proof (induction n arbitrary: k rule: str_nat.induct)
  case (1 n)
  show ?case
  proof (cases "n < 10")
    case True
    have "(10::nat) ^ 1 \<le> 10 ^ k"
      using 1(2) by (intro power_increasing) simp_all
    with True have "n < 10 ^ k" by simp
    moreover have "length (str_nat n) = 1"
      using True by (subst str_nat.simps) simp
    ultimately show ?thesis using 1(2) by simp
  next
    case False
    have len: "length (str_nat n) = Suc (length (str_nat (n div 10)))"
      using False by (subst str_nat.simps) simp
    have pos: "0 < length (str_nat (n div 10))"
      by (subst str_nat.simps) simp
    show ?thesis
    proof (cases k)
      case 0
      with 1(2) show ?thesis by simp
    next
      case (Suc j)
      show ?thesis
      proof (cases "j = 0")
        case True
        with Suc False len pos show ?thesis by simp
      next
        case j: False
        then have "length (str_nat (n div 10)) \<le> j \<longleftrightarrow> n div 10 < 10 ^ j"
          using 1(1) [OF False, of j] by simp
        moreover have "n div 10 < 10 ^ j \<longleftrightarrow> n < 10 ^ j * 10"
          by (simp add: div_less_iff_less_mult)
        ultimately show ?thesis
          using Suc len by (simp add: mult.commute)
      qed
    qed
  qed
qed

lemma builtin_str_iff:
  "builtin_str n = (if \<bar>n\<bar> < 10 ^ int_max_str_digits then Inr (py_str n) else Inl ValueError)"
proof -
  have pos: "0 < int_max_str_digits"
    by (simp add: int_max_str_digits_def)
  have "nat \<bar>n\<bar> < 10 ^ int_max_str_digits \<longleftrightarrow> \<bar>n\<bar> < 10 ^ int_max_str_digits"
    by (simp add: nat_less_iff)
  with length_str_nat_le [OF pos, of "nat \<bar>n\<bar>"]
  have "int_max_str_digits < length (str_nat (nat \<bar>n\<bar>))
      \<longleftrightarrow> \<not> \<bar>n\<bar> < 10 ^ int_max_str_digits"
    by (simp only: not_le [symmetric])
  then show ?thesis
    by (simp only: builtin_str_def if_not_P if_P split: if_splits) simp
qed

text \<open>
  The limit between powers of two: \<open>2^14284\<close> has 4300 digits and \<open>2^14285\<close> has 4301.
  Both bounds are put together from small powers, \<open>2^485 < 10^146\<close> and
  \<open>10^59 < 2^196\<close>, so that no number of thousands of digits is ever computed.
\<close>

lemma pow2_below_limit: "(2::int) ^ 14284 < 10 ^ int_max_str_digits"
proof -
  have a: "(2::int) ^ 485 < 10 ^ 146" by simp
  have b: "(2::int) ^ 219 < 10 ^ 66" by simp
  have e: "(14284::nat) = 485 * 29 + 219" by simp
  have d: "(4300::nat) = 146 * 29 + 66" by simp
  have a0: "(0::int) \<le> 2 ^ 485" and b0: "(0::int) \<le> 2 ^ 219" and n0: "(0::nat) < 29"
    by simp_all
  have c0: "(0::int) < (10 ^ 146) ^ 29"
    by (rule zero_less_power) simp
  have "((2::int) ^ 485) ^ 29 < (10 ^ 146) ^ 29"
    by (rule power_strict_mono [OF a a0 n0])
  then have "((2::int) ^ 485) ^ 29 * 2 ^ 219 < (10 ^ 146) ^ 29 * 10 ^ 66"
    by (rule mult_strict_mono [OF _ b c0 b0])
  then show ?thesis
    by (simp only: int_max_str_digits_def e d power_add power_mult)
qed

lemma pow2_above_limit: "(10::int) ^ int_max_str_digits < 2 ^ 14285"
proof -
  have a: "(10::int) ^ 59 < 2 ^ 196" by simp
  have b: "(10::int) ^ 52 < 2 ^ 173" by simp
  have e: "(14285::nat) = 196 * 72 + 173" by simp
  have d: "(4300::nat) = 59 * 72 + 52" by simp
  have a0: "(0::int) \<le> 10 ^ 59" and b0: "(0::int) \<le> 10 ^ 52" and n0: "(0::nat) < 72"
    by simp_all
  have c0: "(0::int) < (2 ^ 196) ^ 72"
    by (rule zero_less_power) simp
  have "((10::int) ^ 59) ^ 72 < (2 ^ 196) ^ 72"
    by (rule power_strict_mono [OF a a0 n0])
  then have "((10::int) ^ 59) ^ 72 * 10 ^ 52 < (2 ^ 196) ^ 72 * 2 ^ 173"
    by (rule mult_strict_mono [OF _ b c0 b0])
  then show ?thesis
    by (simp only: int_max_str_digits_def e d power_add power_mult)
qed

lemma builtin_str_below:
  assumes "0 \<le> n" and "n < 2 ^ m" and "m \<le> 14284"
  shows "builtin_str n = Inr (py_str n)"
proof -
  have "(2::int) ^ m \<le> 2 ^ 14284"
    by (rule power_increasing [OF assms(3)]) simp
  with assms(2) have "n < 2 ^ 14284"
    by (rule less_le_trans)
  then have "n < 10 ^ int_max_str_digits"
    using pow2_below_limit by (rule less_trans)
  moreover have "\<bar>n\<bar> = n"
    using assms(1) by (rule abs_of_nonneg)
  ultimately show ?thesis
    by (simp only: builtin_str_iff if_True)
qed

lemma builtin_str_small:
  assumes "0 \<le> n" and "n \<le> 63"
  shows "builtin_str n = Inr (py_str n)"
proof -
  have "n < 2 ^ 6"
    using assms(2) by simp
  moreover have "(6::nat) \<le> 14284"
    by simp
  ultimately show ?thesis
    by (rule builtin_str_below [OF assms(1)])
qed

lemma builtin_str_above:
  assumes "2 ^ 14285 \<le> n"
  shows "builtin_str n = Inl ValueError"
proof -
  have big: "10 ^ int_max_str_digits < n"
    using pow2_above_limit assms by (rule less_le_trans)
  have "(0::int) \<le> 10 ^ int_max_str_digits"
    by (rule zero_le_power) simp
  then have "0 \<le> n"
    using big by (rule order_trans [OF _ less_imp_le])
  then have "\<bar>n\<bar> = n"
    by (rule abs_of_nonneg)
  moreover have "10 ^ int_max_str_digits \<le> n"
    using big by (rule less_imp_le)
  then have "\<not> n < 10 ^ int_max_str_digits"
    by (simp only: not_less)
  ultimately show ?thesis
    by (simp only: builtin_str_iff if_False)
qed

lemma sum_single_one:
  assumes "c \<noteq> CHR ''1''"
  shows "(\<Sum>i<length (replicate m c @ ''1''). if (replicate m c @ ''1'') ! i = CHR ''1''
            then 2 ^ i else 0) = (2::int) ^ m"
proof -
  have "(\<Sum>i<m. if (replicate m c @ ''1'') ! i = CHR ''1'' then 2 ^ i else (0::int))
      = (\<Sum>i<m. 0)"
    by (rule sum.cong) (simp_all add: nth_append assms)
  then show ?thesis
    by (simp add: nth_append)
qed

lemma get_result_single_one:
  assumes "c \<noteq> CHR ''1''"
  shows "get_result (replicate 14285 c @ ''1'') = Inl ValueError"
proof -
  have "builtin_str ((2::int) ^ 14285) = Inl ValueError"
    by (rule builtin_str_above) (rule order_refl)
  then show ?thesis
    by (simp only: get_result_sum sum_single_one [OF assms])
qed

lemma digit_val: "d < 10 \<Longrightarrow> of_char (digit_char d) - 48 = d"
proof -
  assume "d < 10"
  then have "d \<in> {0, 1, 2, 3, 4, 5, 6, 7, 8, 9}" by auto
  then show ?thesis by (auto simp add: digit_char_def)
qed


lemma nat_of_digits_str_nat: "nat_of_digits (str_nat n) = n"
proof (induction n rule: str_nat.induct)
  case (1 n)
  show ?case
  proof (cases "n < 10")
    case True
    then show ?thesis
      by (subst str_nat.simps) (simp add: nat_of_digits_def digit_val)
  next
    case False
    then have "nat_of_digits (str_nat (n div 10)) = n div 10"
      using 1 by simp
    with False show ?thesis
      by (subst str_nat.simps) (simp add: nat_of_digits_def digit_val)
  qed
qed

lemma inj_str_nat: "inj str_nat"
  by (rule inj_on_inverseI [where g = nat_of_digits]) (rule nat_of_digits_str_nat)

lemma digit_char_not_minus: "d < 10 \<Longrightarrow> digit_char d \<noteq> CHR ''-''"
proof -
  assume "d < 10"
  then have "d \<in> {0, 1, 2, 3, 4, 5, 6, 7, 8, 9}" by auto
  then show ?thesis by (auto simp add: digit_char_def)
qed

lemma str_nat_no_minus: "CHR ''-'' \<notin> set (str_nat n)"
proof (induction n rule: str_nat.induct)
  case (1 n)
  show ?case
  proof (cases "n < 10")
    case True
    then show ?thesis
      by (subst str_nat.simps) (simp add: digit_char_not_minus [symmetric])
  next
    case False
    then have "CHR ''-'' \<notin> set (str_nat (n div 10))"
      using 1 by simp
    with False show ?thesis
      using digit_char_not_minus [of "n mod 10"]
      by (subst str_nat.simps) auto
  qed
qed

lemma inj_py_str: "inj py_str"
proof (rule injI)
  fix a b :: int
  assume eq: "py_str a = py_str b"
  have neg: "hd (py_str x) = CHR ''-'' \<longleftrightarrow> x < 0" for x
  proof (cases "x < 0")
    case True
    then show ?thesis by (simp add: py_str_def)
  next
    case False
    have "str_nat (nat x) \<noteq> []"
      by (subst str_nat.simps) simp
    then have "hd (str_nat (nat x)) \<in> set (str_nat (nat x))"
      by simp
    with str_nat_no_minus [of "nat x"] have "hd (str_nat (nat x)) \<noteq> CHR ''-''"
      by metis
    with False show ?thesis by (simp add: py_str_def)
  qed
  from eq neg [of a] neg [of b] have same: "a < 0 \<longleftrightarrow> b < 0"
    by simp
  show "a = b"
  proof (cases "a < 0")
    case True
    with same eq have "str_nat (nat (- a)) = str_nat (nat (- b))"
      by (simp add: py_str_def)
    then have "nat (- a) = nat (- b)"
      using inj_str_nat by (simp add: inj_def)
    with True same show ?thesis by simp
  next
    case False
    with same eq have "str_nat (nat a) = str_nat (nat b)"
      by (simp add: py_str_def)
    then have "nat a = nat b"
      using inj_str_nat by (simp add: inj_def)
    with False same show ?thesis by simp
  qed
qed

section \<open>The round and the card tables\<close>

lemma answer_char_eq_one: "answer_char b = CHR ''1'' \<longleftrightarrow> b"
  by (simp add: answer_char_def)

lemma answers_fold_press:
  "answers (fold press bs g) = answers g @ map answer_char bs"
  by (induction bs arbitrary: g) (simp_all add: press_def process_answer_def answer_char_def)

lemma card_num_fold_press:
  "card_num (fold press bs g) = card_num g + length bs"
  by (induction bs arbitrary: g) (simp_all add: press_def process_answer_def)

lemma answers_play: "answers (play bs) = map answer_char bs"
  by (simp add: play_def answers_fold_press start_game_def)

lemma get_result_play:
  "get_result (answers (play bs)) = builtin_str (\<Sum>j<length bs. if bs ! j then 2 ^ j else 0)"
  by (simp add: get_result_sum answers_play answer_char_eq_one cong: if_cong)

lemma bit_table:
  "map (\<lambda>k. filter (\<lambda>n. drop_bit k n AND 1 = 1) [1..63]) [0..<6] =
    [ [1, 3, 5, 7, 9, 11, 13, 15, 17, 19, 21, 23, 25, 27, 29, 31, 33, 35, 37, 39, 41, 43, 45,
         47, 49, 51, 53, 55, 57, 59, 61, 63],
      [2, 3, 6, 7, 10, 11, 14, 15, 18, 19, 22, 23, 26, 27, 30, 31, 34, 35, 38, 39, 42, 43, 46,
         47, 50, 51, 54, 55, 58, 59, 62, 63],
      [4, 5, 6, 7, 12, 13, 14, 15, 20, 21, 22, 23, 28, 29, 30, 31, 36, 37, 38, 39, 44, 45, 46,
         47, 52, 53, 54, 55, 60, 61, 62, 63],
      [8, 9, 10, 11, 12, 13, 14, 15, 24, 25, 26, 27, 28, 29, 30, 31, 40, 41, 42, 43, 44, 45, 46,
         47, 56, 57, 58, 59, 60, 61, 62, 63],
      [16, 17, 18, 19, 20, 21, 22, 23, 24, 25, 26, 27, 28, 29, 30, 31, 48, 49, 50, 51, 52, 53,
         54, 55, 56, 57, 58, 59, 60, 61, 62, 63],
      [32, 33, 34, 35, 36, 37, 38, 39, 40, 41, 42, 43, 44, 45, 46, 47, (48::int), 49, 50, 51,
         52, 53, 54, 55, 56, 57, 58, 59, 60, 61, 62, 63] ]"
  by code_simp

lemma CARDS_NUMS_bits:
  "CARDS_NUMS = map (\<lambda>k. map py_str (filter (\<lambda>n. drop_bit k n AND 1 = 1) [1..63])) [0..<6]"
proof -
  have "map (\<lambda>k. map py_str (filter (\<lambda>n. drop_bit k n AND 1 = 1) [1..63])) [0..<6]
      = map (map py_str) (map (\<lambda>k. filter (\<lambda>n. drop_bit k n AND 1 = 1) [1..63]) [0..<6])"
    by (simp only: map_map comp_def)
  also have "\<dots> = CARDS_NUMS"
    by (simp only: bit_table CARDS_NUMS_def list.map)
  finally show ?thesis by (rule sym)
qed

lemma card_lengths:
  "map (\<lambda>k. length (filter (\<lambda>n. drop_bit k n AND 1 = 1) [1..63])) [0..<6] = [32, 32, 32, 32, 32, 32]"
  by code_simp

lemma card_nth:
  assumes "k < 6"
  shows "CARDS_NUMS ! k = map py_str (filter (\<lambda>n. drop_bit k n AND 1 = 1) [1..63])"
  using assms by (simp add: CARDS_NUMS_bits)

lemma card_set:
  assumes "k < 6"
  shows "set (CARDS_NUMS ! k) = py_str ` {n. 1 \<le> n \<and> n \<le> 63 \<and> drop_bit k n AND 1 = 1}"
proof -
  have "set (filter (\<lambda>n. drop_bit k n AND 1 = 1) [1..63])
      = {n. 1 \<le> n \<and> n \<le> 63 \<and> drop_bit k n AND 1 = 1}"
    by auto
  then show ?thesis
    by (simp only: card_nth [OF assms] set_map)
qed

lemma on_card_iff:
  assumes "k < 6"
  shows "on_card n k \<longleftrightarrow> 1 \<le> n \<and> n \<le> 63 \<and> drop_bit k n AND 1 = 1"
  unfolding on_card_def card_set [OF assms]
  using inj_py_str by (auto simp add: inj_def)

lemma card_distinct:
  assumes "k < 6"
  shows "distinct (CARDS_NUMS ! k)"
proof -
  have "inj_on py_str A" for A
    using inj_py_str by (rule inj_on_subset) simp
  then show ?thesis
    by (simp add: card_nth [OF assms] distinct_map)
qed

lemma card_length:
  assumes "k < 6"
  shows "length (CARDS_NUMS ! k) = 32"
proof -
  have "map (\<lambda>k. length (filter (\<lambda>n. drop_bit k n AND 1 = 1) [1..63])) [0..<6] ! k = 32"
    using assms unfolding card_lengths
    by (simp add: nth_Cons' )
  then show ?thesis
    using assms by (simp add: card_nth)
qed

lemma six_bits:
  assumes "0 \<le> n" and "n \<le> 63"
  shows "(\<Sum>k<6. if drop_bit k n AND 1 = 1 then 2 ^ k else 0) = (n::int)"
proof -
  have "(\<Sum>k<6. if drop_bit k n AND 1 = 1 then 2 ^ k else 0)
      = (\<Sum>k = 0..<6. push_bit k (of_bool (bit n k)))"
    unfolding lessThan_atLeast0
    by (rule sum.cong) (simp_all add: bit_iff_and_drop_bit_eq_1 push_bit_eq_mult)
  also have "\<dots> = take_bit 6 n"
    by (rule take_bit_sum [symmetric])
  also have "\<dots> = n"
    using assms by (simp add: take_bit_int_eq_self)
  finally show ?thesis .
qed

section \<open>Claims\<close>

lemma truthful_bits:
  assumes "1 \<le> n" and "n \<le> 63"
  shows "truthful n = map (\<lambda>k. drop_bit k n AND 1 = 1) [0..<6]"
  unfolding truthful_def
  by (rule map_cong) (simp_all add: on_card_iff assms)

lemma sum_truthful:
  "(\<Sum>j<6. if truthful n ! j then 2 ^ j else 0) = (\<Sum>j<6. if on_card n j then 2 ^ j else (0::int))"
  by (rule sum.cong) (simp_all add: truthful_def)

lemma sum_on_card:
  assumes "1 \<le> n" and "n \<le> 63"
  shows "(\<Sum>k<6. if on_card n k then 2 ^ k else 0) = n"
proof -
  have "(\<Sum>k<6. if on_card n k then 2 ^ k else 0)
      = (\<Sum>k<6. if drop_bit k n AND 1 = 1 then 2 ^ k else (0::int))"
    by (rule sum.cong) (simp_all add: on_card_iff assms)
  also have "\<dots> = n"
    using assms by (intro six_bits) simp_all
  finally show ?thesis .
qed

text \<open>
  Claim C1 (round trip). For every \<open>n\<close> from 1 to 63, the round in which answer \<open>k\<close> is
  Yes exactly when \<open>n\<close> is printed on card \<open>k\<close> decodes to \<open>n\<close> (the decoder hands back
  \<open>str(n)\<close>); these answers are the bits 0 to 5 of \<open>n\<close>, and \<open>n\<close> is the sum of
  \<open>2^k\<close> over the cards \<open>k\<close> that show it.
\<close>

theorem round_trip:
  assumes "1 \<le> n" and "n \<le> 63"
  shows "get_result (answers (play (truthful n))) = Inr (py_str n)
       \<and> truthful n = map (\<lambda>k. drop_bit k n AND 1 = 1) [0..<6]
       \<and> (\<Sum>k<6. if py_str n \<in> set (CARDS_NUMS ! k) then 2 ^ k else 0) = n"
proof -
  have len: "length (truthful n) = 6"
    by (simp add: truthful_def)
  have "builtin_str n = Inr (py_str n)"
    using assms by (intro builtin_str_small) simp_all
  then have "get_result (answers (play (truthful n))) = Inr (py_str n)"
    unfolding get_result_play len sum_truthful sum_on_card [OF assms] .
  moreover have "(\<Sum>k<6. if py_str n \<in> set (CARDS_NUMS ! k) then 2 ^ k else 0) = n"
    using sum_on_card [OF assms] by (simp only: on_card_def)
  ultimately show ?thesis
    using truthful_bits [OF assms] by simp
qed

text \<open>The round trip at \<open>n = 37\<close>.\<close>

theorem round_trip_witness:
  "(1::int) \<le> 37 \<and> (37::int) \<le> 63
   \<and> get_result (answers (play (truthful 37))) = Inr (py_str 37)
   \<and> get_result (answers (play (truthful 37))) = Inr ''37''"
proof -
  have lo: "(1::int) \<le> 37" and hi: "(37::int) \<le> 63"
    by simp_all
  have str: "py_str 37 = ''37''"
    by code_simp
  have res: "get_result (answers (play (truthful 37))) = Inr (py_str 37)"
    using round_trip [OF lo hi] by (rule conjunct1)
  show ?thesis
    using lo hi res str by simp
qed

lemma decoded_range:
  "0 \<le> (\<Sum>i = 0..<m. if bs ! i then 2 ^ i else (0::int))"
  "(\<Sum>i = 0..<m. if bs ! i then 2 ^ i else (0::int)) \<le> 2 ^ m - 1"
proof -
  show "0 \<le> (\<Sum>i = 0..<m. if bs ! i then 2 ^ i else (0::int))"
    by (rule sum_nonneg) simp
  have "(\<Sum>i = 0..<m. if bs ! i then 2 ^ i else (0::int)) \<le> (\<Sum>i = 0..<m. 2 ^ i)"
    by (rule sum_mono) simp
  also have "\<dots> = 2 ^ m - 1"
    by (induction m) simp_all
  finally show "(\<Sum>i = 0..<m. if bs ! i then 2 ^ i else (0::int)) \<le> 2 ^ m - 1" .
qed

text \<open>
  Claim C2 (decoder contract). For six answers, the decoder returns the decimal string of
  the sum over \<open>i\<close> from 0 to 5 of \<open>2^i\<close> where answer \<open>i\<close> is Yes, and that sum lies
  between 0 and 63.
\<close>

theorem decoder_contract:
  assumes "length bs = 6"
  shows "get_result (answers (play bs)) = Inr (py_str (\<Sum>i = 0..<6. if bs ! i then 2 ^ i else 0))
       \<and> 0 \<le> (\<Sum>i = 0..<6. if bs ! i then 2 ^ i else (0::int))
       \<and> (\<Sum>i = 0..<6. if bs ! i then 2 ^ i else (0::int)) \<le> 63"
proof -
  let ?v = "\<Sum>i = 0..<6. if bs ! i then 2 ^ i else (0::int)"
  have range: "0 \<le> ?v" "?v \<le> 63"
    using decoded_range [where m = 6 and bs = bs] by simp_all
  then have "builtin_str ?v = Inr (py_str ?v)"
    by (rule builtin_str_small)
  then have "get_result (answers (play bs)) = Inr (py_str ?v)"
    by (simp only: get_result_play assms lessThan_atLeast0)
  with range show ?thesis
    by simp
qed

text \<open>The contract at the answers Yes, No, Yes, No, No, Yes, which decode to 37.\<close>

theorem decoder_contract_witness:
  "length [True, False, True, False, False, True] = 6
   \<and> get_result (answers (play [True, False, True, False, False, True])) = Inr ''37''"
proof -
  have "py_str 37 = ''37''"
    by code_simp
  moreover have "(\<Sum>i = 0..<6. if [True, False, True, False, False, True] ! i then 2 ^ i else (0::int)) = 37"
    by (simp add: sum.atLeast0_lessThan_Suc eval_nat_numeral)
  ultimately show ?thesis
    using decoder_contract [of "[True, False, True, False, False, True]"] by simp
qed

lemma set_CARDS_NUMS: "set CARDS_NUMS = {CARDS_NUMS ! k | k. k < 6}"
proof -
  have "length CARDS_NUMS = 6"
    by (simp add: CARDS_NUMS_def)
  then show ?thesis
    by (simp add: set_conv_nth)
qed

text \<open>
  Claim C3 (card content). There are six cards, and for every \<open>k\<close> from 0 to 5 the numbers
  printed on card \<open>k\<close> are exactly the \<open>n\<close> from 1 to 63 with \<open>(n >> k) & 1 == 1\<close>.
\<close>

theorem card_content:
  "length CARDS_NUMS = 6
   \<and> (\<forall>k<6. {n. py_str n \<in> set (CARDS_NUMS ! k)}
              = {n. 1 \<le> n \<and> n \<le> 63 \<and> drop_bit k n AND 1 = 1})"
proof -
  have "length CARDS_NUMS = 6"
    by (simp add: CARDS_NUMS_def)
  moreover have "{n. py_str n \<in> set (CARDS_NUMS ! k)}
      = {n. 1 \<le> n \<and> n \<le> 63 \<and> drop_bit k n AND 1 = 1}" if "k < 6" for k
    using on_card_iff [OF that] by (simp add: on_card_def)
  ultimately show ?thesis by blast
qed

text \<open>
  Card 2 shows 5 (binary 101) and shows neither 8 (binary 1000) nor 68 (out of range).
\<close>

theorem card_content_witness:
  "(2::nat) < 6 \<and> py_str 5 \<in> set (CARDS_NUMS ! 2) \<and> py_str 8 \<notin> set (CARDS_NUMS ! 2)
   \<and> py_str 68 \<notin> set (CARDS_NUMS ! 2)"
proof -
  have k: "(2::nat) < 6" by simp
  have eq: "{n. py_str n \<in> set (CARDS_NUMS ! 2)}
      = {n. 1 \<le> n \<and> n \<le> 63 \<and> drop_bit 2 n AND 1 = 1}"
    using card_content k by blast
  have "(5::int) \<in> {n. 1 \<le> n \<and> n \<le> 63 \<and> drop_bit 2 n AND 1 = 1}"
    by (simp add: drop_bit_eq_div)
  moreover have "(8::int) \<notin> {n. 1 \<le> n \<and> n \<le> 63 \<and> drop_bit 2 n AND 1 = 1}"
    by (simp add: drop_bit_eq_div)
  moreover have "(68::int) \<notin> {n. 1 \<le> n \<and> n \<le> 63 \<and> drop_bit 2 n AND 1 = 1}"
    by simp
  ultimately show ?thesis
    unfolding eq [symmetric] using k by simp
qed

text \<open>
  Claim C4 (card cardinality). There are six cards; each has 32 entries, no entry twice,
  and so shows 32 different numbers.
\<close>

theorem card_cardinality:
  "length CARDS_NUMS = 6
   \<and> (\<forall>k<6. length (CARDS_NUMS ! k) = 32 \<and> card (set (CARDS_NUMS ! k)) = 32
            \<and> card {n. py_str n \<in> set (CARDS_NUMS ! k)} = 32)"
proof -
  have "length CARDS_NUMS = 6"
    by (simp add: CARDS_NUMS_def)
  moreover have "length (CARDS_NUMS ! k) = 32 \<and> card (set (CARDS_NUMS ! k)) = 32
            \<and> card {n. py_str n \<in> set (CARDS_NUMS ! k)} = 32" if "k < 6" for k
  proof -
    have len: "length (CARDS_NUMS ! k) = 32"
      by (rule card_length [OF that])
    have crd: "card (set (CARDS_NUMS ! k)) = 32"
      using distinct_card [OF card_distinct [OF that]] len by simp
    have "{n. py_str n \<in> set (CARDS_NUMS ! k)} = py_str -` set (CARDS_NUMS ! k)"
      by auto
    moreover have "set (CARDS_NUMS ! k) \<subseteq> range py_str"
      unfolding card_set [OF that] by blast
    ultimately have "card {n. py_str n \<in> set (CARDS_NUMS ! k)} = card (set (CARDS_NUMS ! k))"
      using card_vimage_inj [OF inj_py_str] by simp
    with len crd show ?thesis by simp
  qed
  ultimately show ?thesis by blast
qed

text \<open>
  The first card has 32 entries, all different.
\<close>

theorem card_cardinality_witness:
  "(0::nat) < 6 \<and> length CARDS_NUMS = 6 \<and> length (CARDS_NUMS ! 0) = 32
   \<and> card (set (CARDS_NUMS ! 0)) = 32"
  using card_cardinality by simp

text \<open>
  Claim C5 (card coverage). Every number from 1 to 63 is printed on at least one card, and
  0 is printed on none.
\<close>

theorem card_coverage:
  "(\<forall>n. 1 \<le> n \<and> n \<le> 63 \<longrightarrow> (\<exists>c \<in> set CARDS_NUMS. py_str n \<in> set c))
   \<and> (\<forall>c \<in> set CARDS_NUMS. py_str 0 \<notin> set c)"
proof -
  have "\<exists>c \<in> set CARDS_NUMS. py_str n \<in> set c" if lo: "1 \<le> n" and hi: "n \<le> 63" for n
  proof (rule ccontr)
    assume "\<not> (\<exists>c \<in> set CARDS_NUMS. py_str n \<in> set c)"
    then have none: "\<not> on_card n k" if "k < 6" for k
      using that by (auto simp add: set_CARDS_NUMS on_card_def)
    have "(\<Sum>k<6. if on_card n k then 2 ^ k else 0) = (\<Sum>k<(6::nat). (0::int))"
      by (rule sum.cong) (simp_all add: none)
    then have "n = 0"
      using sum_on_card [OF lo hi] by simp
    with lo show False by simp
  qed
  moreover have "py_str 0 \<notin> set c" if "c \<in> set CARDS_NUMS" for c
  proof -
    from that obtain k where k: "k < 6" and c: "c = CARDS_NUMS ! k"
      by (auto simp add: set_CARDS_NUMS)
    have "\<not> on_card 0 k"
      by (simp add: on_card_iff [OF k])
    then show ?thesis
      by (simp add: c on_card_def)
  qed
  ultimately show ?thesis by blast
qed

text \<open>
  The number 40 is on some card, and the first card does not show 0.
\<close>

theorem card_coverage_witness:
  "(1::int) \<le> 40 \<and> (40::int) \<le> 63 \<and> (\<exists>c \<in> set CARDS_NUMS. py_str 40 \<in> set c)
   \<and> CARDS_NUMS ! 0 \<in> set CARDS_NUMS \<and> py_str 0 \<notin> set (CARDS_NUMS ! 0)"
proof -
  have mem: "CARDS_NUMS ! 0 \<in> set CARDS_NUMS"
    by (simp add: CARDS_NUMS_def)
  have "(1::int) \<le> 40 \<and> (40::int) \<le> 63"
    by simp
  then have "\<exists>c \<in> set CARDS_NUMS. py_str 40 \<in> set c"
    using card_coverage by blast
  moreover have "py_str 0 \<notin> set (CARDS_NUMS ! 0)"
    using card_coverage mem by blast
  ultimately show ?thesis
    using mem by simp
qed

text \<open>
  Claim C6 (the slicing step changes nothing). The slice \<open>binary_string[::+1]\<close> returns
  the string as it is, so the decoder of the source agrees on every input string with the
  positional decoder that has no such step. (A step of \<open>-1\<close> would have reversed the string, see
  \<open>slice_step_minus_one\<close>.)
\<close>

theorem reversal_noop:
  "get_result s = decode_positional s \<and> slice_step s 1 = Inr s"
  by (simp add: get_result_sum decode_positional_def slice_step_one)

text \<open>
  Claim C7 as written fails: on the string of 14285 characters \<open>'0'\<close> followed by one
  \<open>'1'\<close> the loop computes \<open>2^14285\<close>, which has 4301 digits, and \<open>str\<close> raises
  \<open>ValueError\<close>.
\<close>

theorem get_result_long_input_raises:
  "get_result (replicate 14285 (CHR ''0'') @ ''1'') = Inl ValueError"
  by (rule get_result_single_one) simp

text \<open>
  Claim C7, amended (totality up to the digit limit). The decoder checks nothing about its
  input. On every input string of at most 14284 characters, shorter or longer than six, it
  returns a result and raises no error. In general it returns a result exactly when the
  positional sum is below \<open>10^4300\<close>, that is, has at most 4300 digits.
\<close>

theorem get_result_returns:
  "(length s \<le> 14284 \<longrightarrow> (\<exists>r. get_result s = Inr r))
   \<and> ((\<exists>r. get_result s = Inr r)
        \<longleftrightarrow> (\<Sum>i<length s. if s ! i = CHR ''1'' then 2 ^ i else 0)
              < (10::int) ^ int_max_str_digits)"
proof -
  let ?v = "\<Sum>i<length s. if s ! i = CHR ''1'' then 2 ^ i else (0::int)"
  have v: "0 \<le> ?v" "?v < 2 ^ length s"
    by (rule positional_sum_bounds)+
  have "\<exists>r. get_result s = Inr r" if "length s \<le> 14284"
    using builtin_str_below [OF v that] by (simp only: get_result_sum) blast
  moreover have "\<bar>?v\<bar> = ?v"
    using v(1) by (rule abs_of_nonneg)
  then have "(\<exists>r. get_result s = Inr r) \<longleftrightarrow> ?v < 10 ^ int_max_str_digits"
    by (simp only: get_result_sum builtin_str_iff) simp
  ultimately show ?thesis
    by blast
qed

text \<open>Seven answers, one more than a round has, are decoded.\<close>

theorem get_result_returns_witness:
  "length ''1011011'' \<le> 14284 \<and> (\<exists>r. get_result ''1011011'' = Inr r)"
  using get_result_returns [of "''1011011''"] by simp

text \<open>
  Claim C8 (specific values). Six No answers decode to 0, six Yes answers to 63, a single
  Yes on the first card to 1 and a single Yes on the second card to 2.
\<close>

theorem decode_values:
  "get_result (answers (play [False, False, False, False, False, False])) = Inr ''0''
   \<and> get_result (answers (play [True, True, True, True, True, True])) = Inr ''63''
   \<and> get_result (answers (play [True, False, False, False, False, False])) = Inr ''1''
   \<and> get_result (answers (play [False, True, False, False, False, False])) = Inr ''2''"
  by code_simp

text \<open>
  Claim C9 (order sensitivity). Some six answers and some permutation of their positions
  give different results: exchanging the first two answers of Yes, No, No, No, No, No
  turns 1 into 2.
\<close>

theorem order_sensitive:
  "\<exists>bs p. length bs = 6 \<and> bij_betw p {..<6} {..<6}
     \<and> get_result (answers (play (map (\<lambda>i. bs ! p i) [0..<6])))
         \<noteq> get_result (answers (play bs))"
proof -
  define p :: "nat \<Rightarrow> nat" where "p = (\<lambda>i. if i = 0 then 1 else if i = 1 then 0 else i)"
  define bs where "bs = [True, False, False, False, False, False]"
  have "bij_betw p {..<6} {..<6}"
    by (rule bij_betw_byWitness [where f' = p]) (auto simp add: p_def)
  moreover have "length bs = 6"
    by (simp add: bs_def)
  moreover have "map (\<lambda>i. bs ! p i) [0..<6] = [False, True, False, False, False, False]"
    by (simp add: bs_def p_def upt_rec [of _ 6] upt_rec [of _ "Suc _"] eval_nat_numeral)
  moreover have "get_result (answers (play [False, True, False, False, False, False]))
      \<noteq> get_result (answers (play [True, False, False, False, False, False]))"
    by code_simp
  ultimately show ?thesis
    unfolding bs_def by metis
qed

text \<open>
  Claim C10 as written fails on a long input: after 14285 characters \<open>'x'\<close> a final
  \<open>'1'\<close> would have to contribute \<open>2^14285\<close> to the result, but there is no result,
  \<open>str\<close> raises \<open>ValueError\<close>.
\<close>

theorem get_result_long_lenient_raises:
  "get_result (replicate 14285 (CHR ''x'') @ ''1'') = Inl ValueError"
  by (rule get_result_single_one) simp

text \<open>
  Claim C10, amended (lenient input). Position \<open>i\<close> adds \<open>2^i\<close> to the decoded value
  exactly when its character is \<open>'1'\<close>, and any other character adds nothing. The decoder
  returns the string of that value when it is below \<open>10^4300\<close>, which is so for every
  input of at most 14284 characters, and raises \<open>ValueError\<close> otherwise. On every input,
  characters other than \<open>'1'\<close> count as \<open>'0'\<close>, and the empty string decodes to 0.
\<close>

theorem lenient_input:
  "get_result s =
     (if (\<Sum>i<length s. if s ! i = CHR ''1'' then 2 ^ i else 0) < (10::int) ^ int_max_str_digits
      then Inr (py_str (\<Sum>i<length s. if s ! i = CHR ''1'' then 2 ^ i else 0))
      else Inl ValueError)
   \<and> (length s \<le> 14284 \<longrightarrow>
        get_result s = Inr (py_str (\<Sum>i<length s. if s ! i = CHR ''1'' then 2 ^ i else 0)))
   \<and> get_result s = get_result (map (\<lambda>c. if c = CHR ''1'' then CHR ''1'' else CHR ''0'') s)
   \<and> get_result '''' = Inr ''0''"
proof -
  let ?v = "\<Sum>i<length s. if s ! i = CHR ''1'' then 2 ^ i else (0::int)"
  have v: "0 \<le> ?v" "?v < 2 ^ length s"
    by (rule positional_sum_bounds)+
  have "\<bar>?v\<bar> = ?v"
    using v(1) by (rule abs_of_nonneg)
  then have first: "get_result s
      = (if ?v < 10 ^ int_max_str_digits then Inr (py_str ?v) else Inl ValueError)"
    by (simp only: get_result_sum builtin_str_iff)
  have second: "get_result s = Inr (py_str ?v)" if "length s \<le> 14284"
    using builtin_str_below [OF v that] by (simp only: get_result_sum)
  have "(\<Sum>i<length s. if map (\<lambda>c. if c = CHR ''1'' then CHR ''1'' else CHR ''0'') s ! i = CHR ''1''
            then 2 ^ i else 0)
      = ?v"
    by (rule sum.cong) simp_all
  then have third: "get_result s
      = get_result (map (\<lambda>c. if c = CHR ''1'' then CHR ''1'' else CHR ''0'') s)"
    by (simp add: get_result_sum)
  have "builtin_str 0 = Inr (py_str 0)"
    by (rule builtin_str_small) simp_all
  moreover have "py_str 0 = ''0''"
    by code_simp
  ultimately have fourth: "get_result '''' = Inr ''0''"
    by (simp add: get_result_sum)
  from first second third fourth show ?thesis
    by blast
qed

text \<open>The string \<open>'1x1'\<close> decodes to 5: the \<open>'x'\<close> counts as \<open>'0'\<close>.\<close>

theorem lenient_input_witness:
  "length ''1x1'' \<le> 14284 \<and> get_result ''1x1'' = Inr ''5''"
proof -
  have "(\<Sum>i<length ''1x1''. if ''1x1'' ! i = CHR ''1'' then 2 ^ i else (0::int)) = 5"
    by (simp add: lessThan_Suc eval_nat_numeral)
  moreover have "py_str 5 = ''5''"
    by code_simp
  moreover have len: "length ''1x1'' \<le> 14284"
    by simp
  moreover have "get_result ''1x1''
      = Inr (py_str (\<Sum>i<length ''1x1''. if ''1x1'' ! i = CHR ''1'' then 2 ^ i else 0))"
    using lenient_input [of "''1x1''"] len by blast
  ultimately show ?thesis
    by (simp only: simp_thms)
qed

end
